theory Spec2Isabelle
  imports Main "HOL-Library.AList" "HOL-Library.Sublist" "HOL-Library.Char_ord"
    "HOL-Library.List_Lexorder"
begin

section \<open>The contributor-list script spark_manager.py\<close>

text \<open>
  The script is one sequential pipeline: it diffs the commit lists of two tags, sorts the new
  commits into buckets by their titles, asks the issue tracker about every issue reference of
  the commits that are left, groups issue types and components by author, and writes one line
  per author. The module \<^verbatim>\<open>releaseutils\<close> it imports is not part of the sources: its functions
  are parameters of the model (the record \<open>env\<close> below), except \<^verbatim>\<open>nice_join\<close> and
  \<^verbatim>\<open>CORE_COMPONENT\<close>, which are written down from the specification and marked so.
  The prompts, the exits they lead to and the closing list of warnings are left out: the
  model is the diff of the two commit lists, the classification loop, the loop that fills
  \<^verbatim>\<open>author_info\<close>, and the lines of the report.
\<close>

subsection \<open>Strings\<close>

text \<open>
  A Python \<^verbatim>\<open>str\<close> is a \<open>string\<close> here. \<^verbatim>\<open>str.lower\<close> and \<^verbatim>\<open>str.upper\<close> are modelled on the
  ASCII letters and leave every other character alone.
\<close>

definition upper_letters :: string where
  "upper_letters = ''ABCDEFGHIJKLMNOPQRSTUVWXYZ''"

definition lower_letters :: string where
  "lower_letters = ''abcdefghijklmnopqrstuvwxyz''"

definition lower_char :: "char \<Rightarrow> char" where
  "lower_char c = (case map_of (zip upper_letters lower_letters) c of None \<Rightarrow> c | Some d \<Rightarrow> d)"

definition upper_char :: "char \<Rightarrow> char" where
  "upper_char c = (case map_of (zip lower_letters upper_letters) c of None \<Rightarrow> c | Some d \<Rightarrow> d)"

definition lower :: "string \<Rightarrow> string" where
  "lower s = map lower_char s"

definition upper :: "string \<Rightarrow> string" where
  "upper s = map upper_char s"

text \<open>\<^verbatim>\<open>p in s\<close> on strings: \<open>p\<close> occurs in \<open>s\<close> as a contiguous run.\<close>

fun contains :: "string \<Rightarrow> string \<Rightarrow> bool" where
  "contains p [] = (p = [])"
| "contains p (c # cs) = (prefix p (c # cs) \<or> contains p cs)"

text \<open>\<^verbatim>\<open>sep.join(xs)\<close>.\<close>

fun join :: "string \<Rightarrow> string list \<Rightarrow> string" where
  "join sep [] = []"
| "join sep [x] = x"
| "join sep (x # y # ys) = x @ sep @ join sep (y # ys)"

subsection \<open>The regular expression \<^verbatim>\<open>SPARK-[0-9]+\<close>\<close>

definition is_digit :: "char \<Rightarrow> bool" where
  "is_digit c = (c \<in> set ''0123456789'')"

text \<open>
  A match at the head of \<open>s\<close>: the six characters \<^verbatim>\<open>SPARK-\<close> and then the longest run of
  digits, which must not be empty. The result is the matched text and what follows it.
\<close>

definition match_here :: "string \<Rightarrow> (string \<times> string) option" where
  "match_here s =
     (if prefix ''SPARK-'' s \<and> takeWhile is_digit (drop 6 s) \<noteq> []
      then Some (''SPARK-'' @ takeWhile is_digit (drop 6 s), dropWhile is_digit (drop 6 s))
      else None)"

text \<open>\<^verbatim>\<open>re.search\<close> is used for its truth value only: is there a match at some position.\<close>

fun re_search :: "string \<Rightarrow> bool" where
  "re_search [] = False"
| "re_search (c # cs) = (match_here (c # cs) \<noteq> None \<or> re_search cs)"

text \<open>
  \<^verbatim>\<open>re.findall\<close>: the matches from left to right, each search starting where the last match
  ended, and one character further on where there is no match.
\<close>

function findall :: "string \<Rightarrow> string list" where
  "findall [] = []"
| "findall (c # cs) =
     (case match_here (c # cs) of
        None \<Rightarrow> findall cs
      | Some (m, rest) \<Rightarrow> m # findall rest)"
  by pat_completeness auto
termination
proof (relation "measure length")
  show "wf (measure length)" by simp
next
  fix c :: char and cs :: string
  show "(cs, c # cs) \<in> measure length" by simp
next
  fix c :: char and cs x2 m rest
  assume "match_here (c # cs) = Some x2" and "(m, rest) = x2"
  then have "rest = dropWhile is_digit (drop 6 (c # cs))"
    by (auto simp: match_here_def split: if_splits)
  moreover have "length (dropWhile is_digit (drop 6 (c # cs))) \<le> length (drop 6 (c # cs))"
    by (rule length_dropWhile_le)
  ultimately show "(rest, c # cs) \<in> measure length" by simp
qed

subsection \<open>Commits and the commits of the new release\<close>

text \<open>
  A commit as the script reads it: through \<^verbatim>\<open>get_hash\<close>, \<^verbatim>\<open>get_title\<close>, \<^verbatim>\<open>get_author\<close> and
  \<^verbatim>\<open>get_pr_number\<close>. The title and the pull request number may be \<^verbatim>\<open>None\<close>.
\<close>

record commit =
  get_hash :: string
  get_title :: "string option"
  get_author :: string
  get_pr_number :: "string option"

text \<open>
  The truth value Python gives an optional string in a condition: \<^verbatim>\<open>None\<close> and the empty
  string are false. The script tests \<^verbatim>\<open>commit.get_pr_number()\<close> this way, so a commit has a
  pull request number when the value is neither.
\<close>

fun truthy :: "string option \<Rightarrow> bool" where
  "truthy None = False"
| "truthy (Some s) = (s \<noteq> [])"

definition previous_release_hashes :: "commit list \<Rightarrow> string set" where
  "previous_release_hashes previous_release_commits =
     set (map get_hash previous_release_commits)"

definition previous_release_prs :: "commit list \<Rightarrow> string option set" where
  "previous_release_prs previous_release_commits =
     set (map get_pr_number (filter (\<lambda>c. truthy (get_pr_number c)) previous_release_commits))"

definition new_commits :: "commit list \<Rightarrow> commit list \<Rightarrow> commit list" where
  "new_commits previous_release_commits release_commits =
     filter (\<lambda>c. get_hash c \<notin> previous_release_hashes previous_release_commits \<and>
                 (if truthy (get_pr_number c)
                  then get_pr_number c \<notin> previous_release_prs previous_release_commits
                  else True))
       release_commits"

subsection \<open>Sorting the commits by title\<close>

definition is_release :: "string \<Rightarrow> bool" where
  "is_release commit_title =
     (\<exists>phrase \<in> set [''[release]'', ''preparing spark release'',
                       ''preparing development version'', ''changes.txt''].
        contains phrase (lower commit_title))"

definition is_maintenance :: "string \<Rightarrow> bool" where
  "is_maintenance commit_title =
     (\<exists>phrase \<in> set [''maintenance'', ''manually close''].
        contains phrase (lower commit_title))"

definition has_no_jira :: "string \<Rightarrow> bool" where
  "has_no_jira commit_title = (\<not> re_search (upper commit_title))"

definition is_revert :: "string \<Rightarrow> bool" where
  "is_revert commit_title = contains ''revert'' (lower commit_title)"

definition is_docs :: "string \<Rightarrow> bool" where
  "is_docs commit_title =
     (contains ''docs'' (lower commit_title) \<or> contains ''programming guide'' (lower commit_title))"

text \<open>The five lists the loop appends to.\<close>

record buckets =
  releases :: "commit list"
  maintenance :: "commit list"
  reverts :: "commit list"
  nojiras :: "commit list"
  filtered_commits :: "commit list"

definition no_buckets :: buckets where
  "no_buckets = \<lparr>releases = [], maintenance = [], reverts = [], nojiras = [],
                  filtered_commits = []\<rparr>"

text \<open>\<^verbatim>\<open>commit.get_title() or ""\<close>.\<close>

definition title_or_empty :: "commit \<Rightarrow> string" where
  "title_or_empty c = (case get_title c of None \<Rightarrow> [] | Some t \<Rightarrow> t)"

definition classify_step :: "buckets \<Rightarrow> commit \<Rightarrow> buckets" where
  "classify_step b c =
     (let title = title_or_empty c in
      if is_release title then b\<lparr>releases := releases b @ [c]\<rparr>
      else if is_maintenance title then b\<lparr>maintenance := maintenance b @ [c]\<rparr>
      else if is_revert title then b\<lparr>reverts := reverts b @ [c]\<rparr>
      else if is_docs title then b\<lparr>filtered_commits := filtered_commits b @ [c]\<rparr>
      else if has_no_jira title then b\<lparr>nojiras := nojiras b @ [c]\<rparr>
      else b\<lparr>filtered_commits := filtered_commits b @ [c]\<rparr>)"

definition classify_commits :: "commit list \<Rightarrow> buckets" where
  "classify_commits commits = foldl classify_step no_buckets commits"

text \<open>
  The classifier as the specification words it: an ordered list of rules over the title, the
  first rule that matches gives the category, and a title no rule matches is normal.
\<close>

datatype category = Release | Maintenance | Revert | Documentation | NoIssue | Normal

fun first_match :: "((string \<Rightarrow> bool) \<times> category) list \<Rightarrow> string \<Rightarrow> category" where
  "first_match [] title = Normal"
| "first_match ((p, k) # rules) title = (if p title then k else first_match rules title)"

definition priority_rules :: "((string \<Rightarrow> bool) \<times> category) list" where
  "priority_rules =
     [(is_release, Release), (is_maintenance, Maintenance), (is_revert, Revert),
      (is_docs, Documentation), (has_no_jira, NoIssue)]"

definition category_of :: "string \<Rightarrow> category" where
  "category_of title = first_match priority_rules title"

text \<open>The list a category's commits are appended to: documentation and normal commits share one.\<close>

fun bucket_of :: "category \<Rightarrow> buckets \<Rightarrow> commit list" where
  "bucket_of Release b = releases b"
| "bucket_of Maintenance b = maintenance b"
| "bucket_of Revert b = reverts b"
| "bucket_of NoIssue b = nojiras b"
| "bucket_of Documentation b = filtered_commits b"
| "bucket_of Normal b = filtered_commits b"

subsection \<open>What the script imports\<close>

text \<open>An issue as the tracker returns it: the name of its type and the names of its components.\<close>

record issue =
  issuetype_name :: string
  component_names :: "string list"

text \<open>
  The collaborators of the loop. \<open>jira_issue\<close> is \<^verbatim>\<open>jira_client.issue\<close>: \<open>Inl\<close> carries the
  message of the exception a failed query raises. The two translations may append to the list
  of warnings they are given, so they return it. \<open>iter_order\<close> is the order in which Python
  iterates over a set of strings: the language leaves it open, and it changes from run to run
  with the hash seed.
\<close>

record env =
  is_valid_author :: "string \<Rightarrow> bool"
  find_components :: "string \<Rightarrow> string \<Rightarrow> string list"
  get_date :: "string \<Rightarrow> string"
  jira_issue :: "string \<Rightarrow> string + issue"
  translate_issue_type :: "string \<Rightarrow> string \<Rightarrow> string list \<Rightarrow> string \<times> string list"
  translate_component :: "string \<Rightarrow> string \<Rightarrow> string list \<Rightarrow> string \<times> string list"
  iter_order :: "string set \<Rightarrow> string list"

text \<open>An iteration order lists every finite set once, each element once.\<close>

definition iterates :: "(string set \<Rightarrow> string list) \<Rightarrow> bool" where
  "iterates ord = (\<forall>S. finite S \<longrightarrow> set (ord S) = S \<and> distinct (ord S))"

text \<open>
  Modelled from the spec: the constant \<^verbatim>\<open>CORE_COMPONENT\<close> of \<^verbatim>\<open>releaseutils\<close>, which the
  specification calls the default "core" component.
\<close>

definition CORE_COMPONENT :: string where
  "CORE_COMPONENT = ''core''"

text \<open>
  Modelled from the spec: the function \<^verbatim>\<open>nice_join\<close> of \<^verbatim>\<open>releaseutils\<close>. The specification
  gives its rule: no separator for a single item, " and " between two, and for three or more
  the items separated by commas with "and" before the last ("A, B, and C"). Nothing is said
  of no items at all; the empty string is taken.
\<close>

fun nice_join :: "string list \<Rightarrow> string" where
  "nice_join [] = []"
| "nice_join [x] = x"
| "nice_join [x, y] = x @ '' and '' @ y"
| "nice_join xs = join '', '' (butlast xs) @ '', and '' @ last xs"

subsection \<open>Grouping by author\<close>

text \<open>
  The dictionaries keep the order in which their keys were first stored, so they are
  association lists: \<open>AList.update\<close> overwrites a key where it stands and appends a new one,
  \<open>map_of\<close> looks a key up, and a key is not in the dictionary when \<open>map_of\<close> gives \<open>None\<close>.
\<close>

type_synonym author_record = "(string \<times> string set) list"

text \<open>
  What the loop over the commits changes: the three global variables \<^verbatim>\<open>author_info\<close>,
  \<^verbatim>\<open>invalid_authors\<close> and \<^verbatim>\<open>warnings\<close>, and its two effects on the outside, the issues it
  has asked the tracker for (\<open>queried\<close>) and the lines it has printed (\<open>printed\<close>), both in
  order.
\<close>

record state =
  author_info :: "(string \<times> author_record) list"
  invalid_authors :: "(string \<times> string set) list"
  warnings :: "string list"
  queried :: "string list"
  printed :: "string list"

definition init_state :: state where
  "init_state = \<lparr>author_info = [], invalid_authors = [], warnings = [], queried = [],
                  printed = []\<rparr>"

text \<open>The exceptions that are not caught: they end the run.\<close>

datatype error = AttributeError | IndexError | StopIteration | KeyError

text \<open>
  \<^verbatim>\<open>populate\<close>, with the author it reads from the enclosing loop as an argument. The components
  are a set or a list in the script; both are false in \<^verbatim>\<open>components or [CORE_COMPONENT]\<close>
  exactly when they are empty, and only their elements are used.
\<close>

definition populate ::
  "string \<Rightarrow> string \<Rightarrow> string set \<Rightarrow> (string \<times> author_record) list
     \<Rightarrow> (string \<times> author_record) list" where
  "populate author issue_type components info =
     (let components = (if components = {} then {CORE_COMPONENT} else components);
          info = (if map_of info author = None then AList.update author [] info else info);
          types = (case map_of info author of None \<Rightarrow> [] | Some r \<Rightarrow> r);
          types = (if map_of types issue_type = None then AList.update issue_type {} types
                   else types);
          comps = (case map_of types issue_type of None \<Rightarrow> {} | Some s \<Rightarrow> s)
      in AList.update author (AList.update issue_type (comps \<union> components) types) info)"

text \<open>
  The name an author is grouped under: the raw author string, or for a string that fails
  \<^verbatim>\<open>is_valid_author\<close> the string, a slash, and the issue references recorded for it so far
  (those of this commit included) joined by slashes.
\<close>

definition rewrite_author ::
  "env \<Rightarrow> (string \<times> string set) list \<Rightarrow> string \<Rightarrow> string list
     \<Rightarrow> (string \<times> string set) list \<times> string" where
  "rewrite_author e invalid author issues =
     (if \<not> is_valid_author e author then
        (let invalid = (if map_of invalid author = None then AList.update author {} invalid
                        else invalid);
             seen = (case map_of invalid author of None \<Rightarrow> {} | Some s \<Rightarrow> s);
             invalid = AList.update author (fold insert issues seen) invalid
         in (invalid,
             author @ ''/'' @
               join ''/'' (iter_order e (case map_of invalid author of None \<Rightarrow> {} | Some s \<Rightarrow> s))))
      else (invalid, author))"

text \<open>The list comprehension over the components of an issue, the warnings threaded through.\<close>

fun translate_components ::
  "env \<Rightarrow> string \<Rightarrow> string list \<Rightarrow> string list \<Rightarrow> string list \<times> string list" where
  "translate_components e h [] w = ([], w)"
| "translate_components e h (c # cs) w =
     (let (c', w') = translate_component e c h w;
          (cs', w'') = translate_components e h cs w'
      in (c' # cs', w''))"

text \<open>
  The body of the loop over the issue references of a commit: the \<^verbatim>\<open>try\<close> block, and the
  handler that prints the error and goes on.
\<close>

definition process_issue ::
  "env \<Rightarrow> string \<Rightarrow> string list \<Rightarrow> string \<Rightarrow> state \<Rightarrow> string \<Rightarrow> state" where
  "process_issue e h commit_components author st iss =
     (let st = st\<lparr>queried := queried st @ [iss]\<rparr> in
      case jira_issue e iss of
        Inl msg \<Rightarrow> st\<lparr>printed := printed st @ [''Unexpected error: '' @ msg]\<rparr>
      | Inr found \<Rightarrow>
          (let (jira_type, w) = translate_issue_type e (issuetype_name found) iss (warnings st);
               (jira_components, w) = translate_components e h (component_names found) w;
               all_components = set (jira_components @ commit_components)
           in st\<lparr>warnings := w,
                 author_info := populate author jira_type all_components (author_info st)\<rparr>))"

text \<open>
  The body of the loop over the commits that are left. \<^verbatim>\<open>title.upper()\<close> raises on a title that
  is \<^verbatim>\<open>None\<close>.
\<close>

definition process_commit :: "env \<Rightarrow> state \<Rightarrow> commit \<Rightarrow> error + state" where
  "process_commit e st c =
     (case get_title c of
        None \<Rightarrow> Inl AttributeError
      | Some title \<Rightarrow>
          (let issues = findall (upper title);
               (invalid, author) = rewrite_author e (invalid_authors st) (get_author c) issues;
               st = st\<lparr>invalid_authors := invalid\<rparr>;
               commit_components = find_components e title (get_hash c);
               st = foldl (process_issue e (get_hash c) commit_components author) st issues;
               st = (if is_docs title \<and> issues = []
                     then st\<lparr>author_info :=
                            populate author ''documentation'' (set commit_components)
                              (author_info st)\<rparr>
                     else st)
           in Inr (st\<lparr>printed := printed st @
                        [''  Processed commit '' @ get_hash c @ '' authored by '' @ author @
                         '' on '' @ get_date e (get_hash c)]\<rparr>)))"

fun aggregate_from :: "env \<Rightarrow> state \<Rightarrow> commit list \<Rightarrow> error + state" where
  "aggregate_from e st [] = Inr st"
| "aggregate_from e st (c # cs) =
     (case process_commit e st c of
        Inl err \<Rightarrow> Inl err
      | Inr st' \<Rightarrow> aggregate_from e st' cs)"

definition aggregate :: "env \<Rightarrow> commit list \<Rightarrow> error + state" where
  "aggregate e commits = aggregate_from e init_state commits"

subsection \<open>The report\<close>

text \<open>\<^verbatim>\<open>contribution[0].capitalize() + contribution[1:]\<close>, which raises on the empty string.\<close>

definition capitalize_first :: "string \<Rightarrow> error + string" where
  "capitalize_first contribution =
     (case contribution of
        [] \<Rightarrow> Inl IndexError
      | c # cs \<Rightarrow> Inr (upper_char c # cs))"

text \<open>
  The contribution of one author, from the author's record. \<^verbatim>\<open>next(iter(components))\<close> is the
  first element in iteration order and raises on no element.
\<close>

definition contribution_of :: "env \<Rightarrow> author_record \<Rightarrow> error + string" where
  "contribution_of e types =
     (let components = \<Union> (set (map snd types));
          issue_types = set (map fst types)
      in if card components = 1
         then (case iter_order e components of
                 [] \<Rightarrow> Inl StopIteration
               | x # _ \<Rightarrow> Inr (nice_join (iter_order e issue_types) @ '' in '' @ x))
         else Inr (join ''; ''
                 (map (\<lambda>(issue_type, comps). issue_type @ '' in '' @ nice_join (iter_order e comps))
                    types)))"

definition report_line ::
  "env \<Rightarrow> (string \<times> author_record) list \<Rightarrow> string \<Rightarrow> error + string" where
  "report_line e info author =
     (case map_of info author of
        None \<Rightarrow> Inl KeyError
      | Some types \<Rightarrow>
          (case contribution_of e types of
             Inl err \<Rightarrow> Inl err
           | Inr contribution \<Rightarrow>
               (case capitalize_first contribution of
                  Inl err \<Rightarrow> Inl err
                | Inr contribution \<Rightarrow> Inr (author @ '' -- '' @ contribution))))"

text \<open>The lines written to the file, authors in sorted order; the first error ends the run.\<close>

fun write_lines ::
  "env \<Rightarrow> (string \<times> author_record) list \<Rightarrow> string list \<Rightarrow> error + string list" where
  "write_lines e info [] = Inr []"
| "write_lines e info (author # authors) =
     (case report_line e info author of
        Inl err \<Rightarrow> Inl err
      | Inr line \<Rightarrow>
          (case write_lines e info authors of
             Inl err \<Rightarrow> Inl err
           | Inr lines \<Rightarrow> Inr (line # lines)))"

definition report :: "env \<Rightarrow> (string \<times> author_record) list \<Rightarrow> error + string list" where
  "report e info = write_lines e info (sort (map fst info))"

subsection \<open>Reading the result\<close>

text \<open>\<^verbatim>\<open>author_info[author][issue_type]\<close>, where both keys are there.\<close>

definition lookup_components ::
  "(string \<times> author_record) list \<Rightarrow> string \<Rightarrow> string \<Rightarrow> string set option" where
  "lookup_components info author issue_type =
     (case map_of info author of None \<Rightarrow> None | Some types \<Rightarrow> map_of types issue_type)"

text \<open>
  \<^verbatim>\<open>populate\<close> is the only code that writes to \<^verbatim>\<open>author_info\<close>: a later value of the dictionary
  comes from an earlier one by calls of it.
\<close>

inductive grows ::
  "(string \<times> author_record) list \<Rightarrow> (string \<times> author_record) list \<Rightarrow> bool" where
  grows_same: "grows info info"
| grows_populate: "grows info info' \<Longrightarrow> grows info (populate a t cs info')"

text \<open>
  The issue references of the commits of one author in a list of commits: what the
  specification calls the references seen so far for that author, when the list is the
  commits processed so far.
\<close>

definition seen_references :: "string \<Rightarrow> commit list \<Rightarrow> string set" where
  "seen_references author commits =
     \<Union> (set (map (\<lambda>c. set (findall (upper (title_or_empty c))))
              (filter (\<lambda>c. get_author c = author) commits)))"

text \<open>No author has an empty record, and no issue type of a record has an empty component set.\<close>

definition no_empty_entry :: "(string \<times> author_record) list \<Rightarrow> bool" where
  "no_empty_entry info =
     (\<forall>(author, types) \<in> set info. types \<noteq> [] \<and> (\<forall>(issue_type, comps) \<in> set types. comps \<noteq> {}))"

subsection \<open>Example inputs\<close>

text \<open>
  An environment for the examples: an author is valid when the string has a \<^verbatim>\<open><\<close>, the title
  and the diff give no component, and the translations change nothing. The iteration order and
  the tracker are arguments.
\<close>

definition ex_env :: "(string set \<Rightarrow> string list) \<Rightarrow> (string \<Rightarrow> string + issue) \<Rightarrow> env" where
  "ex_env ord tracker =
     \<lparr>is_valid_author = (\<lambda>a. contains ''<'' a),
      find_components = (\<lambda>title h. []),
      get_date = (\<lambda>h. ''2014-12-01''),
      jira_issue = tracker,
      translate_issue_type = (\<lambda>t i w. (t, w)),
      translate_component = (\<lambda>c h w. (c, w)),
      iter_order = ord\<rparr>"


definition ex_tracker :: "string \<Rightarrow> string + issue" where
  "ex_tracker i =
     (if i = ''SPARK-1'' then Inl ''HTTP 404''
      else Inr \<lparr>issuetype_name = ''Bug'', component_names = [''SQL'']\<rparr>)"

definition ex_commit :: "string \<Rightarrow> string \<Rightarrow> string \<Rightarrow> string option \<Rightarrow> commit" where
  "ex_commit h title author pr =
     \<lparr>get_hash = h, get_title = Some title, get_author = author, get_pr_number = pr\<rparr>"

text \<open>A release with a commit that names two issues and a documentation commit that names none.\<close>

definition ex_run :: "commit list" where
  "ex_run =
     [ex_commit ''h1'' ''[SPARK-1][SPARK-2] Fix the join'' ''Bob <b@x.org>'' None,
      ex_commit ''h2'' ''Update docs'' ''Bob <b@x.org>'' None]"


definition ex_bob_docs :: "commit list" where
  "ex_bob_docs = [ex_commit ''h3'' ''Update docs'' ''bob'' None]"

text \<open>
  An iteration order other than the sorted one, and the record of an author with the issue
  types Bug and Improvement and the one component core.
\<close>

definition ex_descending :: "string set \<Rightarrow> string list" where
  "ex_descending S = rev (sorted_list_of_set S)"

definition ex_info :: "(string \<times> author_record) list" where
  "ex_info = [(''Ann <a@x.org>'', [(''Bug'', {''core''}), (''Improvement'', {''core''})])]"

section \<open>Properties\<close>

lemmas string_eval =
  lower_def upper_def lower_char_def upper_char_def upper_letters_def lower_letters_def

subsection \<open>The commits of the new release\<close>

text \<open>
  Claim C1. A commit of the new release is among the new commits exactly when its hash is not
  a hash of the previous release and it has no pull request number or its number is not one
  of the numbers of the previous release's commits that have one. So a commit whose hash is
  in the previous release is left out whatever its number is, and so is a commit with a new
  hash whose number is a number of the previous release. Having a number is Python's truth
  value of \<^verbatim>\<open>get_pr_number()\<close>: neither \<^verbatim>\<open>None\<close> nor the empty string.
\<close>

theorem new_commits_iff_absent:
  "(c \<in> set (new_commits prev rel) \<longleftrightarrow>
      c \<in> set rel \<and> get_hash c \<notin> get_hash ` set prev \<and>
      (\<not> truthy (get_pr_number c) \<or>
       get_pr_number c \<notin> get_pr_number ` {d \<in> set prev. truthy (get_pr_number d)})) \<and>
   (get_hash c \<in> get_hash ` set prev \<longrightarrow> c \<notin> set (new_commits prev rel)) \<and>
   (truthy (get_pr_number c) \<and> get_pr_number c \<in> get_pr_number ` set prev \<longrightarrow>
      c \<notin> set (new_commits prev rel))"
  by (auto simp: new_commits_def previous_release_hashes_def previous_release_prs_def)

theorem new_commits_iff_absent_witness:
  "get_hash (ex_commit ''h1'' ''t1'' ''A'' None) \<in>
     get_hash ` set [ex_commit ''h1'' ''t1'' ''A'' (Some ''10'')] \<and>
   ex_commit ''h1'' ''t1'' ''A'' None \<notin>
     set (new_commits [ex_commit ''h1'' ''t1'' ''A'' (Some ''10'')]
            [ex_commit ''h1'' ''t1'' ''A'' None, ex_commit ''h2'' ''t1'' ''A'' (Some ''10''),
             ex_commit ''h3'' ''t3'' ''B'' (Some ''11''), ex_commit ''h4'' ''t4'' ''B'' None]) \<and>
   new_commits [ex_commit ''h1'' ''t1'' ''A'' (Some ''10'')]
     [ex_commit ''h1'' ''t1'' ''A'' None, ex_commit ''h2'' ''t1'' ''A'' (Some ''10''),
      ex_commit ''h3'' ''t3'' ''B'' (Some ''11''), ex_commit ''h4'' ''t4'' ''B'' None] =
     [ex_commit ''h3'' ''t3'' ''B'' (Some ''11''), ex_commit ''h4'' ''t4'' ''B'' None]"
  using new_commits_iff_absent [of "ex_commit ''h1'' ''t1'' ''A'' None"
      "[ex_commit ''h1'' ''t1'' ''A'' (Some ''10'')]"
      "[ex_commit ''h1'' ''t1'' ''A'' None, ex_commit ''h2'' ''t1'' ''A'' (Some ''10''),
        ex_commit ''h3'' ''t3'' ''B'' (Some ''11''), ex_commit ''h4'' ''t4'' ''B'' None]"]
  by (simp add: ex_commit_def new_commits_def previous_release_hashes_def
      previous_release_prs_def)

subsection \<open>The classifier\<close>

lemma foldl_classify_releases:
  "releases (foldl classify_step b cs) =
     releases b @ filter (\<lambda>c. category_of (title_or_empty c) = Release) cs"
  by (induction cs arbitrary: b)
     (auto simp: classify_step_def category_of_def priority_rules_def Let_def)

lemma foldl_classify_maintenance:
  "maintenance (foldl classify_step b cs) =
     maintenance b @ filter (\<lambda>c. category_of (title_or_empty c) = Maintenance) cs"
  by (induction cs arbitrary: b)
     (auto simp: classify_step_def category_of_def priority_rules_def Let_def)

lemma foldl_classify_reverts:
  "reverts (foldl classify_step b cs) =
     reverts b @ filter (\<lambda>c. category_of (title_or_empty c) = Revert) cs"
  by (induction cs arbitrary: b)
     (auto simp: classify_step_def category_of_def priority_rules_def Let_def)

lemma foldl_classify_nojiras:
  "nojiras (foldl classify_step b cs) =
     nojiras b @ filter (\<lambda>c. category_of (title_or_empty c) = NoIssue) cs"
  by (induction cs arbitrary: b)
     (auto simp: classify_step_def category_of_def priority_rules_def Let_def)

lemma foldl_classify_filtered:
  "filtered_commits (foldl classify_step b cs) =
     filtered_commits b @
       filter (\<lambda>c. category_of (title_or_empty c) \<in> {Documentation, Normal}) cs"
  by (induction cs arbitrary: b)
     (auto simp: classify_step_def category_of_def priority_rules_def Let_def)

lemma category_of_chain:
  "category_of t =
     (if is_release t then Release else if is_maintenance t then Maintenance
      else if is_revert t then Revert else if is_docs t then Documentation
      else if has_no_jira t then NoIssue else Normal)"
  by (simp add: category_of_def priority_rules_def)

lemma filtered_commits_classify:
  "filtered_commits (classify_commits cs) =
     filter (\<lambda>c. category_of (title_or_empty c) \<in> {Documentation, Normal}) cs"
  by (simp add: classify_commits_def foldl_classify_filtered no_buckets_def)

text \<open>
  Claim C2. The category of a commit depends on its title only and is given by the first rule
  that matches, in the order release, maintenance, revert, documentation, no issue, and normal
  when none does: each list the loop builds holds the commits of its category, in their
  order. A title that contains both "[release]" and "revert" once lowered is a release commit,
  not a revert.
\<close>

theorem classifier_priority:
  "category_of t =
     (if is_release t then Release else if is_maintenance t then Maintenance
      else if is_revert t then Revert else if is_docs t then Documentation
      else if has_no_jira t then NoIssue else Normal) \<and>
   releases (classify_commits cs) =
     filter (\<lambda>c. category_of (title_or_empty c) = Release) cs \<and>
   maintenance (classify_commits cs) =
     filter (\<lambda>c. category_of (title_or_empty c) = Maintenance) cs \<and>
   reverts (classify_commits cs) =
     filter (\<lambda>c. category_of (title_or_empty c) = Revert) cs \<and>
   nojiras (classify_commits cs) =
     filter (\<lambda>c. category_of (title_or_empty c) = NoIssue) cs \<and>
   filtered_commits (classify_commits cs) =
     filter (\<lambda>c. category_of (title_or_empty c) \<in> {Documentation, Normal}) cs \<and>
   (contains ''[release]'' (lower t) \<and> contains ''revert'' (lower t) \<longrightarrow>
      category_of t = Release \<and> category_of t \<noteq> Revert)"
  by (simp add: classify_commits_def foldl_classify_releases foldl_classify_maintenance
      foldl_classify_reverts foldl_classify_nojiras foldl_classify_filtered no_buckets_def
      category_of_chain is_release_def)

theorem classifier_priority_witness:
  "contains ''[release]'' (lower ''[RELEASE] Revert the build'') \<and>
   contains ''revert'' (lower ''[RELEASE] Revert the build'') \<and>
   category_of ''[RELEASE] Revert the build'' = Release \<and>
   releases (classify_commits [ex_commit ''h1'' ''[RELEASE] Revert the build'' ''A'' None]) =
     [ex_commit ''h1'' ''[RELEASE] Revert the build'' ''A'' None] \<and>
   reverts (classify_commits [ex_commit ''h1'' ''[RELEASE] Revert the build'' ''A'' None]) = []"
proof -
  have c: "contains ''[release]'' (lower ''[RELEASE] Revert the build'') \<and>
      contains ''revert'' (lower ''[RELEASE] Revert the build'')"
    by (simp add: string_eval)
  have t: "title_or_empty (ex_commit ''h1'' ''[RELEASE] Revert the build'' ''A'' None) =
      ''[RELEASE] Revert the build''"
    by (simp add: title_or_empty_def ex_commit_def)
  note p = classifier_priority [of "''[RELEASE] Revert the build''"
      "[ex_commit ''h1'' ''[RELEASE] Revert the build'' ''A'' None]"]
  have k: "category_of ''[RELEASE] Revert the build'' = Release"
    using p c by blast
  have r: "releases (classify_commits [ex_commit ''h1'' ''[RELEASE] Revert the build'' ''A'' None]) =
      [ex_commit ''h1'' ''[RELEASE] Revert the build'' ''A'' None]"
    using p k t by simp
  have v: "reverts (classify_commits [ex_commit ''h1'' ''[RELEASE] Revert the build'' ''A'' None]) = []"
    using p k t by simp
  show ?thesis
    using c k r v by blast
qed

subsection \<open>Merging into the record of an author\<close>

lemma lookup_populate_same:
  "lookup_components (populate a t cs info) a t =
     Some ((case lookup_components info a t of None \<Rightarrow> {} | Some S \<Rightarrow> S) \<union>
           (if cs = {} then {CORE_COMPONENT} else cs))"
  by (auto simp add: populate_def lookup_components_def Let_def AList.update_conv'
      split: option.splits)


lemma map_of_populate:
  "map_of (populate a t cs info) b =
     (if b = a then
        Some (AList.update t
               ((case lookup_components info a t of None \<Rightarrow> {} | Some S \<Rightarrow> S) \<union>
                (if cs = {} then {CORE_COMPONENT} else cs))
               (case map_of info a of None \<Rightarrow> [] | Some r \<Rightarrow> r))
      else map_of info b)"
  by (auto simp add: populate_def lookup_components_def Let_def AList.update_conv'
      split: option.splits)

text \<open>
  Claim C8. Merging the same author, issue type and components a second time changes nothing:
  the dictionary is the one after the first merge, and so the component set under that author
  and issue type is the same set, of the same size.
\<close>

theorem populate_idempotent:
  "populate a t cs (populate a t cs info) = populate a t cs info \<and>
   (\<exists>S S'. lookup_components (populate a t cs info) a t = Some S \<and>
      lookup_components (populate a t cs (populate a t cs info)) a t = Some S' \<and>
      S' = S \<and> card S' = card S)"
proof -
  have "populate a t cs (populate a t cs info) = populate a t cs info"
    by (simp add: populate_def Let_def AList.update_conv')
  then show ?thesis
    by (simp add: lookup_populate_same)
qed

subsection \<open>What the loop does to the dictionary\<close>

lemma update_member:
  "(k', v') \<in> set (AList.update k v al) \<Longrightarrow> (k', v') = (k, v) \<or> (k', v') \<in> set al"
  by (induction al) (auto split: if_splits)

lemma populate_eq:
  "populate a t cs info =
     AList.update a
       (AList.update t
          ((case lookup_components info a t of None \<Rightarrow> {} | Some S \<Rightarrow> S) \<union>
           (if cs = {} then {CORE_COMPONENT} else cs))
          (case map_of info a of None \<Rightarrow> [] | Some r \<Rightarrow> r))
       info"
  by (auto simp add: populate_def lookup_components_def Let_def AList.update_conv'
      split: option.splits)

lemma populate_no_empty_entry:
  assumes "no_empty_entry info"
  shows "no_empty_entry (populate a t cs info)"
proof -
  define types where "types = (case map_of info a of None \<Rightarrow> [] | Some r \<Rightarrow> r)"
  define S where "S = (case lookup_components info a t of None \<Rightarrow> {} | Some S \<Rightarrow> S) \<union>
           (if cs = {} then {CORE_COMPONENT} else cs)"
  have old: "\<forall>(u, T) \<in> set types. T \<noteq> {}"
  proof (cases "map_of info a")
    case None
    then show ?thesis by (simp add: types_def)
  next
    case (Some r)
    then have "(a, r) \<in> set info" by (rule map_of_SomeD)
    with assms Some show ?thesis by (auto simp: no_empty_entry_def types_def)
  qed
  have S: "S \<noteq> {}" by (simp add: S_def)
  have new: "\<forall>(u, T) \<in> set (AList.update t S types). T \<noteq> {}"
    using old S by (auto dest!: update_member)
  have eq: "populate a t cs info = AList.update a (AList.update t S types) info"
    by (simp add: populate_eq S_def types_def)
  show ?thesis
    unfolding eq no_empty_entry_def
  proof (clarify, rule conjI)
    fix b r
    assume "(b, r) \<in> set (AList.update a (AList.update t S types) info)"
    then have d: "(b, r) = (a, AList.update t S types) \<or> (b, r) \<in> set info"
      by (rule update_member)
    show "r \<noteq> []"
    proof (cases "(b, r) \<in> set info")
      case True
      with assms show ?thesis by (auto simp: no_empty_entry_def)
    next
      case False
      with d have "r = AList.update t S types" by simp
      then show ?thesis by (simp add: AList.update_nonempty)
    qed
    show "\<forall>(u, T) \<in> set r. T \<noteq> {}"
      using d assms new by (auto simp: no_empty_entry_def)
  qed
qed

lemma grows_no_empty_entry:
  "grows info info' \<Longrightarrow> no_empty_entry info \<Longrightarrow> no_empty_entry info'"
  by (induction rule: grows.induct) (auto intro: populate_no_empty_entry)

lemma grows_trans: "grows b c \<Longrightarrow> grows a b \<Longrightarrow> grows a c"
  by (induction rule: grows.induct) (auto intro: grows.intros)

lemma process_issue_grows:
  "grows (author_info st) (author_info (process_issue e h cc a st i))"
  by (auto simp: process_issue_def Let_def split: sum.splits prod.splits intro: grows.intros)

lemma foldl_process_issue_grows:
  "grows (author_info st) (author_info (foldl (process_issue e h cc a) st is))"
proof (induction "is" arbitrary: st)
  case Nil
  show ?case by (simp add: grows_same)
next
  case (Cons i "is")
  show ?case
    using Cons.IH [of "process_issue e h cc a st i"] process_issue_grows [of st e h cc a i]
    by (simp add: grows_trans)
qed

lemma process_commit_grows:
  assumes "process_commit e st c = Inr st'"
  shows "grows (author_info st) (author_info st')"
proof -
  obtain title where t: "get_title c = Some title"
    using assms by (cases "get_title c") (simp_all add: process_commit_def)
  obtain invalid author where r:
    "rewrite_author e (invalid_authors st) (get_author c) (findall (upper title)) = (invalid, author)"
    by (cases "rewrite_author e (invalid_authors st) (get_author c) (findall (upper title))")
  let ?st1 = "foldl (process_issue e (get_hash c) (find_components e title (get_hash c)) author)
       (st\<lparr>invalid_authors := invalid\<rparr>) (findall (upper title))"
  have g1: "grows (author_info st) (author_info ?st1)"
    using foldl_process_issue_grows [of "st\<lparr>invalid_authors := invalid\<rparr>"] by simp
  have "author_info st' = author_info ?st1 \<or>
        author_info st' = populate author ''documentation''
           (set (find_components e title (get_hash c))) (author_info ?st1)"
    using assms t r by (auto simp: process_commit_def Let_def split: if_splits)
  then show ?thesis
    using g1 by (auto intro: grows.intros)
qed

lemma aggregate_from_grows:
  "aggregate_from e st cs = Inr st' \<Longrightarrow> grows (author_info st) (author_info st')"
proof (induction cs arbitrary: st)
  case Nil
  then show ?case by (simp add: grows_same)
next
  case (Cons c cs)
  then show ?case
    by (auto split: sum.splits dest: process_commit_grows intro: grows_trans)
qed

lemma join_nonempty: "x \<noteq> [] \<Longrightarrow> join sep (x # xs) \<noteq> []"
  by (cases xs) simp_all

lemma contribution_nonempty:
  assumes "iterates (iter_order e)" and "types \<noteq> []"
  shows "\<exists>s. contribution_of e types = Inr s \<and> s \<noteq> []"
proof (cases "card (\<Union> (set (map snd types))) = 1")
  case True
  then have "0 < card (\<Union> (set (map snd types)))" by simp
  then have "finite (\<Union> (set (map snd types)))" by (rule card_ge_0_finite)
  moreover have "\<Union> (set (map snd types)) \<noteq> {}"
    using True by (metis card.empty zero_neq_one)
  ultimately have "finite (\<Union> (set (map snd types)))" and "\<Union> (set (map snd types)) \<noteq> {}"
    by blast+
  with assms(1) have "iter_order e (\<Union> (set (map snd types))) \<noteq> []"
    unfolding iterates_def by (metis set_empty)
  with True show ?thesis
    by (auto simp: contribution_of_def Let_def split: list.splits)
next
  case False
  obtain x xs where "types = x # xs" using assms(2) by (cases types) auto
  with False show ?thesis
    by (auto simp: contribution_of_def Let_def join_nonempty split: prod.splits)
qed

lemma category_of_empty: "category_of [] = NoIssue"
  by (simp add: category_of_def priority_rules_def is_release_def is_maintenance_def
      is_revert_def is_docs_def has_no_jira_def string_eval)

lemma filtered_has_title:
  assumes "c \<in> set (filtered_commits (classify_commits cs))"
  shows "\<exists>title. get_title c = Some title \<and> category_of title \<in> {Documentation, Normal}"
proof (cases "get_title c")
  case None
  with assms show ?thesis
    by (auto simp: filtered_commits_classify title_or_empty_def category_of_empty)
next
  case (Some title)
  with assms show ?thesis
    by (auto simp: filtered_commits_classify title_or_empty_def)
qed

lemma process_commit_total:
  "get_title c = Some title \<Longrightarrow> \<exists>st'. process_commit e st c = Inr st'"
  by (simp add: process_commit_def Let_def split: prod.splits)

lemma aggregate_from_total:
  "\<forall>c \<in> set cs. get_title c \<noteq> None \<Longrightarrow> \<exists>st'. aggregate_from e st cs = Inr st'"
proof (induction cs arbitrary: st)
  case Nil
  show ?case by simp
next
  case (Cons c cs)
  then obtain title where "get_title c = Some title" by auto
  then obtain st1 where "process_commit e st c = Inr st1"
    using process_commit_total by blast
  with Cons show ?case by simp
qed

lemma aggregate_filtered_total:
  "\<exists>st. aggregate e (filtered_commits (classify_commits cs)) = Inr st"
  unfolding aggregate_def
  by (rule aggregate_from_total) (auto dest: filtered_has_title)

lemma capitalize_first_nonempty: "s \<noteq> [] \<Longrightarrow> \<exists>s'. capitalize_first s = Inr s' \<and> s' \<noteq> []"
  by (cases s) (simp_all add: capitalize_first_def)

lemma report_line_ok:
  assumes "iterates (iter_order e)" and "no_empty_entry info" and "a \<in> fst ` set info"
  shows "\<exists>l. report_line e info a = Inr l"
proof -
  obtain types where m: "map_of info a = Some types"
    using assms(3) by (metis map_of_eq_None_iff not_None_eq)
  then have "(a, types) \<in> set info" by (rule map_of_SomeD)
  with assms(2) have "types \<noteq> []" by (auto simp: no_empty_entry_def)
  then obtain s where s: "contribution_of e types = Inr s" "s \<noteq> []"
    using contribution_nonempty [OF assms(1)] by blast
  then obtain s' where "capitalize_first s = Inr s'"
    using capitalize_first_nonempty by blast
  with m s show ?thesis by (simp add: report_line_def)
qed

lemma write_lines_ok:
  assumes "iterates (iter_order e)" and "no_empty_entry info"
  shows "set as \<subseteq> fst ` set info \<Longrightarrow> \<exists>ls. write_lines e info as = Inr ls"
proof (induction as)
  case Nil
  show ?case by simp
next
  case (Cons a as)
  then obtain l ls where "report_line e info a = Inr l" "write_lines e info as = Inr ls"
    using report_line_ok [OF assms, of a] by auto
  then show ?case by simp
qed

lemma report_ok:
  "iterates (iter_order e) \<Longrightarrow> no_empty_entry info \<Longrightarrow> \<exists>ls. report e info = Inr ls"
  unfolding report_def by (rule write_lines_ok) auto

subsection \<open>No empty component set, no empty contribution\<close>

lemma iterates_sorted: "iterates sorted_list_of_set"
  by (simp add: iterates_def)

lemma lookup_in_entries:
  assumes "no_empty_entry info" and "lookup_components info a t = Some S"
  shows "S \<noteq> {}"
proof -
  obtain types where m: "map_of info a = Some types" "map_of types t = Some S"
    using assms(2) by (auto simp: lookup_components_def split: option.splits)
  then have "(a, types) \<in> set info" "(t, S) \<in> set types"
    by (auto dest: map_of_SomeD)
  with assms(1) show ?thesis by (auto simp: no_empty_entry_def)
qed

text \<open>
  Claim C9. When the loop over the commits that are left has ended, no author has an empty
  record and every issue type of every record has a component set that is not empty. So the
  contribution rendered for an author is never the empty string, taking its first character
  never fails, and the report is written for every author, whatever the order in which sets
  are iterated.
\<close>

theorem aggregated_sets_nonempty:
  assumes "iterates (iter_order e)"
  shows "\<exists>st. aggregate e (filtered_commits (classify_commits commits)) = Inr st \<and>
     no_empty_entry (author_info st) \<and>
     (\<forall>a t S. lookup_components (author_info st) a t = Some S \<longrightarrow> S \<noteq> {}) \<and>
     (\<forall>a types. map_of (author_info st) a = Some types \<longrightarrow>
        (\<exists>s s'. contribution_of e types = Inr s \<and> s \<noteq> [] \<and> capitalize_first s = Inr s')) \<and>
     (\<exists>lines. report e (author_info st) = Inr lines)"
proof -
  obtain st where st: "aggregate e (filtered_commits (classify_commits commits)) = Inr st"
    using aggregate_filtered_total by blast
  then have "grows (author_info init_state) (author_info st)"
    unfolding aggregate_def by (rule aggregate_from_grows)
  moreover have "no_empty_entry (author_info init_state)"
    by (simp add: init_state_def no_empty_entry_def)
  ultimately have ne: "no_empty_entry (author_info st)"
    by (rule grows_no_empty_entry)
  have sets: "\<forall>a t S. lookup_components (author_info st) a t = Some S \<longrightarrow> S \<noteq> {}"
    using ne lookup_in_entries by blast
  have strs: "\<forall>a types. map_of (author_info st) a = Some types \<longrightarrow>
        (\<exists>s s'. contribution_of e types = Inr s \<and> s \<noteq> [] \<and> capitalize_first s = Inr s')"
  proof (intro allI impI)
    fix a types
    assume "map_of (author_info st) a = Some types"
    then have "(a, types) \<in> set (author_info st)" by (rule map_of_SomeD)
    with ne have "types \<noteq> []" by (auto simp: no_empty_entry_def)
    then obtain s where s: "contribution_of e types = Inr s" "s \<noteq> []"
      using contribution_nonempty [OF assms] by blast
    then obtain s' where "capitalize_first s = Inr s'"
      using capitalize_first_nonempty by blast
    with s show "\<exists>s s'. contribution_of e types = Inr s \<and> s \<noteq> [] \<and> capitalize_first s = Inr s'"
      by blast
  qed
  have "\<exists>lines. report e (author_info st) = Inr lines"
    using assms ne by (rule report_ok)
  with st ne sets strs show ?thesis by blast
qed

theorem aggregated_sets_nonempty_witness:
  "iterates (iter_order (ex_env sorted_list_of_set ex_tracker)) \<and>
   (\<exists>st. aggregate (ex_env sorted_list_of_set ex_tracker)
            (filtered_commits (classify_commits ex_run)) = Inr st \<and>
      no_empty_entry (author_info st) \<and>
      report (ex_env sorted_list_of_set ex_tracker) (author_info st) =
        Inr [''Bob <b@x.org> -- Bug in SQL; documentation in core''])"
proof -
  have i: "iterates (iter_order (ex_env sorted_list_of_set ex_tracker))"
    by (simp add: ex_env_def iterates_sorted)
  obtain st where st:
    "aggregate (ex_env sorted_list_of_set ex_tracker)
       (filtered_commits (classify_commits ex_run)) = Inr st"
    "no_empty_entry (author_info st)"
    using aggregated_sets_nonempty [OF i, of ex_run] by blast
  have "case aggregate (ex_env sorted_list_of_set ex_tracker)
       (filtered_commits (classify_commits ex_run)) of
      Inl err \<Rightarrow> False
    | Inr st \<Rightarrow> report (ex_env sorted_list_of_set ex_tracker) (author_info st) =
        Inr [''Bob <b@x.org> -- Bug in SQL; documentation in core'']"
    by code_simp
  with st have "report (ex_env sorted_list_of_set ex_tracker) (author_info st) =
        Inr [''Bob <b@x.org> -- Bug in SQL; documentation in core'']"
    by simp
  with i st show ?thesis by blast
qed

subsection \<open>What a commit adds\<close>

lemma re_search_findall: "re_search s \<longleftrightarrow> findall s \<noteq> []"
  by (induction s rule: findall.induct) (auto split: option.splits)

lemma has_no_jira_findall: "has_no_jira title \<longleftrightarrow> findall (upper title) = []"
  by (simp add: has_no_jira_def re_search_findall)

lemma process_issue_failed:
  "jira_issue e i = Inl msg \<Longrightarrow>
     process_issue e h cc a st i =
       st\<lparr>queried := queried st @ [i], printed := printed st @ [''Unexpected error: '' @ msg]\<rparr>"
  by (simp add: process_issue_def)




lemma aggregate_from_append:
  "aggregate_from e st (xs @ ys) =
     (case aggregate_from e st xs of Inl err \<Rightarrow> Inl err | Inr st' \<Rightarrow> aggregate_from e st' ys)"
  by (induction xs arbitrary: st) (auto split: sum.splits)

text \<open>The author and the dictionary after the issue loop and after the documentation step.\<close>

lemma process_commit_unfold:
  assumes "get_title c = Some title"
    and "rewrite_author e (invalid_authors st) (get_author c) (findall (upper title)) = (invalid, author)"
  shows "\<exists>st'. process_commit e st c = Inr st' \<and> invalid_authors st' = invalid \<and>
     author_info st' =
       (let info = author_info (foldl (process_issue e (get_hash c)
                      (find_components e title (get_hash c)) author)
                      (st\<lparr>invalid_authors := invalid\<rparr>) (findall (upper title)))
        in if is_docs title \<and> findall (upper title) = []
           then populate author ''documentation'' (set (find_components e title (get_hash c))) info
           else info)"
proof -
  have inv: "invalid_authors (foldl (process_issue e h cc a) s is) = invalid_authors s" for h cc a s "is"
    by (induction "is" arbitrary: s) (auto simp: process_issue_def Let_def split: sum.splits prod.splits)
  show ?thesis
    using assms by (simp add: process_commit_def Let_def inv)
qed


lemma aggregate_from_split:
  assumes "aggregate_from e st0 (pre @ c # post) = Inr final"
  shows "\<exists>st st'. aggregate_from e st0 pre = Inr st \<and> process_commit e st c = Inr st' \<and>
     aggregate_from e st' post = Inr final"
  using assms by (auto simp: aggregate_from_append split: sum.splits)


lemma category_documentation_or_normal:
  assumes "category_of title \<in> {Documentation, Normal}"
  shows "\<not> is_release title \<and> \<not> is_maintenance title \<and> \<not> is_revert title \<and>
     (is_docs title \<or> findall (upper title) \<noteq> [])"
  using assms by (auto simp: category_of_chain has_no_jira_findall split: if_splits)







subsection \<open>Documentation commits that name no issue\<close>

text \<open>
  Claim C5, as the code has it. A commit whose title matches the documentation rule, names no
  issue and matches none of the release, maintenance and revert rules, which come first, is
  among the commits that are left and not among those without an issue. Processing it asks
  the tracker nothing and adds no warning: the one change to the dictionary is a call of
  \<^verbatim>\<open>populate\<close> for the issue type "documentation" with the components found from the title
  and the hash, the default component standing in when none is found.
\<close>

theorem docs_without_issue:
  assumes "get_title c = Some title" and "is_docs title" and "has_no_jira title"
    and "\<not> is_release title" and "\<not> is_maintenance title" and "\<not> is_revert title"
    and "c \<in> set commits"
  shows "category_of title = Documentation \<and>
     c \<in> set (filtered_commits (classify_commits commits)) \<and>
     c \<notin> set (nojiras (classify_commits commits)) \<and>
     (\<exists>st' author. process_commit e st c = Inr st' \<and>
        author = snd (rewrite_author e (invalid_authors st) (get_author c) []) \<and>
        author_info st' =
          populate author ''documentation'' (set (find_components e title (get_hash c)))
            (author_info st) \<and>
        lookup_components (author_info st') author ''documentation'' =
          Some ((case lookup_components (author_info st) author ''documentation'' of
                   None \<Rightarrow> {} | Some S \<Rightarrow> S) \<union>
                (if find_components e title (get_hash c) = [] then {CORE_COMPONENT}
                 else set (find_components e title (get_hash c)))) \<and>
        queried st' = queried st \<and> warnings st' = warnings st)"
proof -
  have cat: "category_of title = Documentation"
    using assms by (simp add: category_of_chain)
  have te: "title_or_empty c = title"
    using assms(1) by (simp add: title_or_empty_def)
  have f: "c \<in> set (filtered_commits (classify_commits commits))"
    using assms(7) cat te by (simp add: filtered_commits_classify)
  have n: "c \<notin> set (nojiras (classify_commits commits))"
    using cat te by (simp add: classify_commits_def foldl_classify_nojiras no_buckets_def)
  have i: "findall (upper title) = []"
    using assms(3) by (simp add: has_no_jira_findall)
  obtain invalid author where ra:
    "rewrite_author e (invalid_authors st) (get_author c) [] = (invalid, author)"
    by (cases "rewrite_author e (invalid_authors st) (get_author c) []")
  let ?st' = "st\<lparr>invalid_authors := invalid,
      author_info := populate author ''documentation''
        (set (find_components e title (get_hash c))) (author_info st),
      printed := printed st @
        [''  Processed commit '' @ get_hash c @ '' authored by '' @ author @
         '' on '' @ get_date e (get_hash c)]\<rparr>"
  have p: "process_commit e st c = Inr ?st'"
    using assms(1,2) i ra by (simp add: process_commit_def Let_def)
  have "lookup_components (author_info ?st') author ''documentation'' =
          Some ((case lookup_components (author_info st) author ''documentation'' of
                   None \<Rightarrow> {} | Some S \<Rightarrow> S) \<union>
                (if find_components e title (get_hash c) = [] then {CORE_COMPONENT}
                 else set (find_components e title (get_hash c))))"
    by (simp add: lookup_populate_same)
  with p ra have "\<exists>st' author. process_commit e st c = Inr st' \<and>
        author = snd (rewrite_author e (invalid_authors st) (get_author c) []) \<and>
        author_info st' =
          populate author ''documentation'' (set (find_components e title (get_hash c)))
            (author_info st) \<and>
        lookup_components (author_info st') author ''documentation'' =
          Some ((case lookup_components (author_info st) author ''documentation'' of
                   None \<Rightarrow> {} | Some S \<Rightarrow> S) \<union>
                (if find_components e title (get_hash c) = [] then {CORE_COMPONENT}
                 else set (find_components e title (get_hash c)))) \<and>
        queried st' = queried st \<and> warnings st' = warnings st"
    by simp
  with cat f n show ?thesis by blast
qed

theorem docs_without_issue_witness:
  "is_docs ''Update docs'' \<and> has_no_jira ''Update docs'' \<and>
   \<not> is_release ''Update docs'' \<and> \<not> is_maintenance ''Update docs'' \<and>
   \<not> is_revert ''Update docs'' \<and>
   ex_commit ''h2'' ''Update docs'' ''Bob <b@x.org>'' None \<in>
     set (filtered_commits (classify_commits ex_run)) \<and>
   (\<exists>st'. process_commit (ex_env sorted_list_of_set ex_tracker) init_state
        (ex_commit ''h2'' ''Update docs'' ''Bob <b@x.org>'' None) = Inr st' \<and>
      author_info st' = [(''Bob <b@x.org>'', [(''documentation'', {''core''})])] \<and>
      queried st' = [])"
proof -
  let ?c = "ex_commit ''h2'' ''Update docs'' ''Bob <b@x.org>'' None"
  let ?e = "ex_env sorted_list_of_set ex_tracker"
  have h: "is_docs ''Update docs''" "has_no_jira ''Update docs''"
    "\<not> is_release ''Update docs''" "\<not> is_maintenance ''Update docs''"
    "\<not> is_revert ''Update docs''"
    by code_simp+
  have t: "get_title ?c = Some ''Update docs''" by (simp add: ex_commit_def)
  have m: "?c \<in> set ex_run" by (simp add: ex_run_def)
  have a: "snd (rewrite_author ?e (invalid_authors init_state) (get_author ?c) []) = ''Bob <b@x.org>''"
    by (simp add: rewrite_author_def ex_env_def ex_commit_def)
  have v: "populate ''Bob <b@x.org>'' ''documentation''
      (set (find_components ?e ''Update docs'' (get_hash ?c))) (author_info init_state) =
      [(''Bob <b@x.org>'', [(''documentation'', {''core''})])]"
    by (simp add: populate_def ex_env_def init_state_def CORE_COMPONENT_def)
  have q: "queried init_state = []" by (simp add: init_state_def)
  note d = docs_without_issue [OF t h m, of ?e init_state]
  from d have f: "?c \<in> set (filtered_commits (classify_commits ex_run))"
    by (elim conjE)
  from d obtain st' author where s: "process_commit ?e init_state ?c = Inr st'"
    "author = snd (rewrite_author ?e (invalid_authors init_state) (get_author ?c) [])"
    "author_info st' = populate author ''documentation''
       (set (find_components ?e ''Update docs'' (get_hash ?c))) (author_info init_state)"
    "queried st' = queried init_state"
    by (elim conjE exE)
  have "author_info st' = [(''Bob <b@x.org>'', [(''documentation'', {''core''})])]"
    using s(2,3) a v by simp
  moreover have "queried st' = []"
    using s(4) q by simp
  moreover note s(1)
  ultimately have "\<exists>st'. process_commit ?e init_state ?c = Inr st' \<and>
      author_info st' = [(''Bob <b@x.org>'', [(''documentation'', {''core''})])] \<and>
      queried st' = []"
    by blast
  with h f show ?thesis by simp
qed

theorem docs_without_issue_counterexample:
  "is_docs ''Revert docs typo'' \<and> has_no_jira ''Revert docs typo'' \<and>
   filtered_commits (classify_commits
      [ex_commit ''h1'' ''Revert docs typo'' ''Bob <b@x.org>'' None]) = [] \<and>
   reverts (classify_commits
      [ex_commit ''h1'' ''Revert docs typo'' ''Bob <b@x.org>'' None]) =
     [ex_commit ''h1'' ''Revert docs typo'' ''Bob <b@x.org>'' None]"
  by code_simp

subsection \<open>A tracker query that fails\<close>

lemma process_issue_cong:
  assumes "author_info s1 = author_info s2" and "warnings s1 = warnings s2"
  shows "author_info (process_issue e h cc a s1 i) = author_info (process_issue e h cc a s2 i) \<and>
     warnings (process_issue e h cc a s1 i) = warnings (process_issue e h cc a s2 i)"
  using assms by (auto simp: process_issue_def Let_def split: sum.splits prod.splits)

lemma foldl_process_issue_cong:
  "author_info s1 = author_info s2 \<Longrightarrow> warnings s1 = warnings s2 \<Longrightarrow>
     author_info (foldl (process_issue e h cc a) s1 is) =
       author_info (foldl (process_issue e h cc a) s2 is) \<and>
     warnings (foldl (process_issue e h cc a) s1 is) =
       warnings (foldl (process_issue e h cc a) s2 is)"
proof (induction "is" arbitrary: s1 s2)
  case Nil
  then show ?case by simp
next
  case (Cons i "is")
  have step: "author_info (process_issue e h cc a s1 i) = author_info (process_issue e h cc a s2 i)"
    "warnings (process_issue e h cc a s1 i) = warnings (process_issue e h cc a s2 i)"
    using process_issue_cong [OF Cons.prems] by blast+
  show ?case
    unfolding foldl_Cons by (rule Cons.IH [OF step])
qed

lemma process_issue_queried:
  "queried (process_issue e h cc a st i) = queried st @ [i]"
  by (auto simp: process_issue_def Let_def split: sum.splits prod.splits)

lemma foldl_process_issue_queried:
  "queried (foldl (process_issue e h cc a) st is) = queried st @ is"
  by (induction "is" arbitrary: st) (simp_all add: process_issue_queried)

lemma process_commit_queried:
  assumes "process_commit e st c = Inr st'"
  shows "queried st' = queried st @ findall (upper (title_or_empty c))"
proof -
  obtain title where t: "get_title c = Some title"
    using assms by (cases "get_title c") (simp_all add: process_commit_def)
  obtain invalid author where ra:
    "rewrite_author e (invalid_authors st) (get_author c) (findall (upper title)) = (invalid, author)"
    by (cases "rewrite_author e (invalid_authors st) (get_author c) (findall (upper title))")
  define loop where "loop =
     foldl (process_issue e (get_hash c) (find_components e title (get_hash c)) author)
       (st\<lparr>invalid_authors := invalid\<rparr>) (findall (upper title))"
  have q: "queried loop = queried st @ findall (upper title)"
    by (simp add: loop_def foldl_process_issue_queried)
  have "\<exists>info line. st' = loop\<lparr>author_info := info, printed := printed loop @ [line]\<rparr>"
  proof (cases "is_docs title \<and> findall (upper title) = []")
    case True
    have "process_commit e st c =
        Inr (loop\<lparr>author_info := populate author ''documentation''
                 (set (find_components e title (get_hash c))) (author_info loop),
               printed := printed loop @
                 [''  Processed commit '' @ get_hash c @ '' authored by '' @ author @
                  '' on '' @ get_date e (get_hash c)]\<rparr>)"
      unfolding process_commit_def Let_def t ra loop_def option.case prod.case
      by (simp add: if_P [OF True])
    with assms show ?thesis by auto
  next
    case False
    have "process_commit e st c =
        Inr (loop\<lparr>printed := printed loop @
                 [''  Processed commit '' @ get_hash c @ '' authored by '' @ author @
                  '' on '' @ get_date e (get_hash c)]\<rparr>)"
      unfolding process_commit_def Let_def t ra loop_def option.case prod.case
      by (simp add: if_not_P [OF False])
    with assms have "st' = loop\<lparr>author_info := author_info loop, printed := printed loop @
                 [''  Processed commit '' @ get_hash c @ '' authored by '' @ author @
                  '' on '' @ get_date e (get_hash c)]\<rparr>"
      by simp
    then show ?thesis by blast
  qed
  then have "queried st' = queried loop" by auto
  with q t show ?thesis by (simp add: title_or_empty_def)
qed

lemma aggregate_from_queried:
  "aggregate_from e st cs = Inr st' \<Longrightarrow>
     queried st' = queried st @ concat (map (\<lambda>c. findall (upper (title_or_empty c))) cs)"
proof (induction cs arbitrary: st)
  case Nil
  then show ?case by simp
next
  case (Cons c cs)
  then obtain st1 where s: "process_commit e st c = Inr st1" "aggregate_from e st1 cs = Inr st'"
    by (auto split: sum.splits)
  show ?case
    using Cons.IH [OF s(2)] process_commit_queried [OF s(1)] by simp
qed

text \<open>
  Claim C6. When the tracker fails on an issue reference, the step for that reference only
  records the query and prints the error. The dictionary and the warnings after the loop over
  the references of a commit are what they are without that reference, so the other
  references of the commit are processed as before. The run over the commits that are left
  always returns a state, whatever the tracker does, and in it every reference of every one
  of these commits has been queried, in order: no commit is dropped and the commits after a
  failure are processed.
\<close>

theorem tracker_failure_skips_one_issue:
  assumes "jira_issue e bad = Inl msg"
  shows "process_issue e h cc a st bad =
       st\<lparr>queried := queried st @ [bad],
          printed := printed st @ [''Unexpected error: '' @ msg]\<rparr> \<and>
     author_info (foldl (process_issue e h cc a) st (is1 @ bad # is2)) =
       author_info (foldl (process_issue e h cc a) st (is1 @ is2)) \<and>
     warnings (foldl (process_issue e h cc a) st (is1 @ bad # is2)) =
       warnings (foldl (process_issue e h cc a) st (is1 @ is2)) \<and>
     queried (foldl (process_issue e h cc a) st (is1 @ bad # is2)) =
       queried st @ is1 @ bad # is2 \<and>
     (\<exists>final. aggregate e (filtered_commits (classify_commits commits)) = Inr final \<and>
        queried final =
          concat (map (\<lambda>c. findall (upper (title_or_empty c)))
                    (filtered_commits (classify_commits commits))))"
proof -
  have one: "process_issue e h cc a st bad =
       st\<lparr>queried := queried st @ [bad],
          printed := printed st @ [''Unexpected error: '' @ msg]\<rparr>" for st
    using assms by (rule process_issue_failed)
  define s1 where "s1 = foldl (process_issue e h cc a) st is1"
  define s2 where "s2 = process_issue e h cc a s1 bad"
  have same: "author_info s2 = author_info s1" "warnings s2 = warnings s1"
    unfolding s2_def one by simp_all
  have rest: "author_info (foldl (process_issue e h cc a) s2 is2) =
       author_info (foldl (process_issue e h cc a) s1 is2) \<and>
     warnings (foldl (process_issue e h cc a) s2 is2) =
       warnings (foldl (process_issue e h cc a) s1 is2)"
    using same by (rule foldl_process_issue_cong)
  have l: "foldl (process_issue e h cc a) st (is1 @ bad # is2) =
      foldl (process_issue e h cc a) s2 is2"
    by (simp add: s1_def s2_def)
  have r: "foldl (process_issue e h cc a) st (is1 @ is2) =
      foldl (process_issue e h cc a) s1 is2"
    by (simp add: s1_def)
  have q: "queried (foldl (process_issue e h cc a) st (is1 @ bad # is2)) =
       queried st @ is1 @ bad # is2"
    by (rule foldl_process_issue_queried)
  obtain final where f: "aggregate e (filtered_commits (classify_commits commits)) = Inr final"
    using aggregate_filtered_total by blast
  have "queried final = queried init_state @
      concat (map (\<lambda>c. findall (upper (title_or_empty c)))
                (filtered_commits (classify_commits commits)))"
    using f unfolding aggregate_def by (rule aggregate_from_queried)
  then have qf: "queried final =
      concat (map (\<lambda>c. findall (upper (title_or_empty c)))
                (filtered_commits (classify_commits commits)))"
    by (simp add: init_state_def)
  have run: "\<exists>final. aggregate e (filtered_commits (classify_commits commits)) = Inr final \<and>
        queried final =
          concat (map (\<lambda>c. findall (upper (title_or_empty c)))
                    (filtered_commits (classify_commits commits)))"
    using f qf by blast
  show ?thesis
    unfolding l r using one [of st] rest q [unfolded l] run by blast
qed

theorem tracker_failure_skips_one_issue_witness:
  "jira_issue (ex_env sorted_list_of_set ex_tracker) ''SPARK-1'' = Inl ''HTTP 404'' \<and>
   author_info (foldl (process_issue (ex_env sorted_list_of_set ex_tracker) ''h1'' []
       ''Bob <b@x.org>'') init_state ([] @ ''SPARK-1'' # [''SPARK-2''])) =
     author_info (foldl (process_issue (ex_env sorted_list_of_set ex_tracker) ''h1'' []
       ''Bob <b@x.org>'') init_state ([] @ [''SPARK-2''])) \<and>
   author_info (foldl (process_issue (ex_env sorted_list_of_set ex_tracker) ''h1'' []
       ''Bob <b@x.org>'') init_state ([] @ [''SPARK-2''])) =
     [(''Bob <b@x.org>'', [(''Bug'', {''SQL''})])] \<and>
   (\<exists>final. aggregate (ex_env sorted_list_of_set ex_tracker)
        (filtered_commits (classify_commits ex_run)) = Inr final \<and>
      queried final = [''SPARK-1'', ''SPARK-2''] \<and>
      author_info final =
        [(''Bob <b@x.org>'', [(''Bug'', {''SQL''}), (''documentation'', {''core''})])])"
proof -
  let ?e = "ex_env sorted_list_of_set ex_tracker"
  have j: "jira_issue ?e ''SPARK-1'' = Inl ''HTTP 404''"
    by (simp add: ex_env_def ex_tracker_def)
  note w = tracker_failure_skips_one_issue [OF j, of "''h1''" "[]" "''Bob <b@x.org>''" init_state
      "[]" "[''SPARK-2'']" ex_run]
  from w have eq: "author_info (foldl (process_issue ?e ''h1'' [] ''Bob <b@x.org>'') init_state
        ([] @ ''SPARK-1'' # [''SPARK-2''])) =
     author_info (foldl (process_issue ?e ''h1'' [] ''Bob <b@x.org>'') init_state
        ([] @ [''SPARK-2'']))"
    by (elim conjE)
  from w obtain final where f:
    "aggregate ?e (filtered_commits (classify_commits ex_run)) = Inr final"
    by (elim conjE exE)
  have v: "author_info (foldl (process_issue ?e ''h1'' [] ''Bob <b@x.org>'') init_state
        ([] @ [''SPARK-2''])) = [(''Bob <b@x.org>'', [(''Bug'', {''SQL''})])]"
    by code_simp
  have "case aggregate ?e (filtered_commits (classify_commits ex_run)) of
      Inl err \<Rightarrow> False
    | Inr final \<Rightarrow> queried final = [''SPARK-1'', ''SPARK-2''] \<and>
        author_info final =
          [(''Bob <b@x.org>'', [(''Bug'', {''SQL''}), (''documentation'', {''core''})])]"
    by code_simp
  with f have "\<exists>final. aggregate ?e (filtered_commits (classify_commits ex_run)) = Inr final \<and>
      queried final = [''SPARK-1'', ''SPARK-2''] \<and>
      author_info final =
        [(''Bob <b@x.org>'', [(''Bug'', {''SQL''}), (''documentation'', {''core''})])]"
    by simp
  with j eq v show ?thesis by blast
qed

subsection \<open>The name of an author whose string is not valid\<close>

lemma fold_insert_set: "fold insert xs A = A \<union> set xs"
  by (induction xs arbitrary: A) auto

lemma rewrite_author_invalid:
  assumes "\<not> is_valid_author e a"
  shows "rewrite_author e invalid a issues =
     (AList.update a ((case map_of invalid a of None \<Rightarrow> {} | Some s \<Rightarrow> s) \<union> set issues) invalid,
      a @ ''/'' @ join ''/''
        (iter_order e ((case map_of invalid a of None \<Rightarrow> {} | Some s \<Rightarrow> s) \<union> set issues)))"
proof (cases "map_of invalid a")
  case None
  with assms show ?thesis
    by (simp add: rewrite_author_def Let_def AList.update_conv' fold_insert_set)
next
  case (Some s)
  with assms show ?thesis
    by (simp add: rewrite_author_def Let_def AList.update_conv' fold_insert_set)
qed

lemma rewrite_author_valid:
  "is_valid_author e a \<Longrightarrow> rewrite_author e invalid a issues = (invalid, a)"
  by (simp add: rewrite_author_def)

lemma process_commit_invalid_authors:
  assumes "process_commit e st c = Inr st'"
  shows "invalid_authors st' =
     fst (rewrite_author e (invalid_authors st) (get_author c)
            (findall (upper (title_or_empty c))))"
proof -
  obtain title where t: "get_title c = Some title"
    using assms by (cases "get_title c") (simp_all add: process_commit_def)
  obtain invalid author where ra:
    "rewrite_author e (invalid_authors st) (get_author c) (findall (upper title)) = (invalid, author)"
    by (cases "rewrite_author e (invalid_authors st) (get_author c) (findall (upper title))")
  from process_commit_unfold [OF t ra] assms have "invalid_authors st' = invalid"
    by auto
  with t ra show ?thesis by (simp add: title_or_empty_def)
qed

lemma seen_references_snoc:
  "seen_references a (cs @ [c]) =
     seen_references a cs \<union>
       (if get_author c = a then set (findall (upper (title_or_empty c))) else {})"
  by (simp add: seen_references_def)

lemma seen_references_Cons:
  "seen_references a (c # cs) =
     (if get_author c = a then set (findall (upper (title_or_empty c))) else {}) \<union>
       seen_references a cs"
  by (simp add: seen_references_def)


lemma process_commit_seen:
  assumes "process_commit e st c = Inr st'" and "\<not> is_valid_author e a"
  shows "(case map_of (invalid_authors st') a of None \<Rightarrow> {} | Some s \<Rightarrow> s) =
     (case map_of (invalid_authors st) a of None \<Rightarrow> {} | Some s \<Rightarrow> s) \<union>
       (if get_author c = a then set (findall (upper (title_or_empty c))) else {})"
proof (cases "get_author c = a")
  case True
  with assms(2) show ?thesis
    unfolding process_commit_invalid_authors [OF assms(1)]
    by (simp add: rewrite_author_invalid AList.update_conv')
next
  case False
  show ?thesis
  proof (cases "is_valid_author e (get_author c)")
    case True
    with False show ?thesis
      unfolding process_commit_invalid_authors [OF assms(1)]
      by (simp add: rewrite_author_valid)
  next
    case v: False
    with False show ?thesis
      unfolding process_commit_invalid_authors [OF assms(1)]
      by (simp add: rewrite_author_invalid AList.update_conv')
  qed
qed

lemma aggregate_from_seen:
  "aggregate_from e st cs = Inr st' \<Longrightarrow> \<not> is_valid_author e a \<Longrightarrow>
     (case map_of (invalid_authors st') a of None \<Rightarrow> {} | Some s \<Rightarrow> s) =
       (case map_of (invalid_authors st) a of None \<Rightarrow> {} | Some s \<Rightarrow> s) \<union> seen_references a cs"
proof (induction cs arbitrary: st)
  case Nil
  then show ?case by (simp add: seen_references_def)
next
  case (Cons c cs)
  then obtain st1 where s: "process_commit e st c = Inr st1" "aggregate_from e st1 cs = Inr st'"
    by (auto split: sum.splits)
  have "(case map_of (invalid_authors st') a of None \<Rightarrow> {} | Some s \<Rightarrow> s) =
       (case map_of (invalid_authors st1) a of None \<Rightarrow> {} | Some s \<Rightarrow> s) \<union> seen_references a cs"
    using s(2) Cons.prems(2) by (rule Cons.IH)
  also have "(case map_of (invalid_authors st1) a of None \<Rightarrow> {} | Some s \<Rightarrow> s) =
     (case map_of (invalid_authors st) a of None \<Rightarrow> {} | Some s \<Rightarrow> s) \<union>
       (if get_author c = a then set (findall (upper (title_or_empty c))) else {})"
    using s(1) Cons.prems(2) by (rule process_commit_seen)
  finally show ?case
    by (simp add: seen_references_Cons Un_assoc)
qed

lemma identity_in_run:
  assumes "\<not> is_valid_author e (get_author c)"
    and "filtered_commits (classify_commits commits) = pre @ c # post"
  shows "\<exists>st st'. aggregate_from e init_state pre = Inr st \<and> process_commit e st c = Inr st' \<and>
     rewrite_author e (invalid_authors st) (get_author c) (findall (upper (title_or_empty c))) =
       (invalid_authors st',
        get_author c @ ''/'' @
          join ''/'' (iter_order e (seen_references (get_author c) (pre @ [c])))) \<and>
     map_of (invalid_authors st') (get_author c) =
       Some (seen_references (get_author c) (pre @ [c]))"
proof -
  obtain final where "aggregate e (filtered_commits (classify_commits commits)) = Inr final"
    using aggregate_filtered_total by blast
  then obtain st st' where run: "aggregate_from e init_state pre = Inr st"
      "process_commit e st c = Inr st'"
    using aggregate_from_split [of e init_state pre c post final] assms(2)
    by (auto simp: aggregate_def)
  have "(case map_of (invalid_authors st) (get_author c) of None \<Rightarrow> {} | Some s \<Rightarrow> s) =
       (case map_of (invalid_authors init_state) (get_author c) of None \<Rightarrow> {} | Some s \<Rightarrow> s) \<union>
         seen_references (get_author c) pre"
    using run(1) assms(1) by (rule aggregate_from_seen)
  then have seen: "(case map_of (invalid_authors st) (get_author c) of None \<Rightarrow> {} | Some s \<Rightarrow> s) =
       seen_references (get_author c) pre"
    by (simp add: init_state_def)
  have ra: "rewrite_author e (invalid_authors st) (get_author c) (findall (upper (title_or_empty c))) =
     (AList.update (get_author c) (seen_references (get_author c) (pre @ [c])) (invalid_authors st),
      get_author c @ ''/'' @
        join ''/'' (iter_order e (seen_references (get_author c) (pre @ [c]))))"
    unfolding rewrite_author_invalid [OF assms(1)] seen
    by (simp add: seen_references_snoc)
  have inv: "invalid_authors st' =
      AList.update (get_author c) (seen_references (get_author c) (pre @ [c])) (invalid_authors st)"
    unfolding process_commit_invalid_authors [OF run(2)] ra by simp
  have "map_of (invalid_authors st') (get_author c) =
       Some (seen_references (get_author c) (pre @ [c]))"
    unfolding inv by (simp add: AList.update_conv')
  with run ra inv show ?thesis by simp
qed






lemma iterates_empty: "iterates ord \<Longrightarrow> ord {} = []"
  unfolding iterates_def by (metis finite.emptyI set_empty)

lemma process_commit_docs:
  assumes "get_title c = Some title" and "is_docs title" and "findall (upper title) = []"
  shows "\<exists>st'. process_commit e st c = Inr st' \<and>
     invalid_authors st' = fst (rewrite_author e (invalid_authors st) (get_author c) []) \<and>
     author_info st' =
       populate (snd (rewrite_author e (invalid_authors st) (get_author c) []))
         ''documentation'' (set (find_components e title (get_hash c))) (author_info st)"
proof -
  obtain invalid author where ra:
    "rewrite_author e (invalid_authors st) (get_author c) (findall (upper title)) = (invalid, author)"
    by (cases "rewrite_author e (invalid_authors st) (get_author c) (findall (upper title))")
  from process_commit_unfold [OF assms(1) ra]
  obtain st' where "process_commit e st c = Inr st'" "invalid_authors st' = invalid"
    "author_info st' =
       populate author ''documentation'' (set (find_components e title (get_hash c)))
         (author_info st)"
    using assms(2,3) by (auto simp: Let_def)
  with ra assms(3) show ?thesis by simp
qed



text \<open>
  Claim C10. The rewrite does not depend on there being a reference: when the set recorded for
  an author that is not valid is empty, and the commit names no issue, the name is the raw
  string with one slash at its end. In a run this is a documentation commit of an author none
  of whose commits so far names an issue, and its entry is stored under that name.
\<close>

theorem invalid_author_without_references:
  assumes "\<not> is_valid_author e (get_author c)" and "iterates (iter_order e)"
    and "filtered_commits (classify_commits commits) = pre @ c # post"
    and "seen_references (get_author c) (pre @ [c]) = {}"
  shows "(\<forall>invalid. (case map_of invalid (get_author c) of None \<Rightarrow> {} | Some s \<Rightarrow> s) = {} \<longrightarrow>
        rewrite_author e invalid (get_author c) [] =
          (AList.update (get_author c) {} invalid, get_author c @ ''/'')) \<and>
     (\<exists>st st'. aggregate_from e init_state pre = Inr st \<and> process_commit e st c = Inr st' \<and>
        findall (upper (title_or_empty c)) = [] \<and>
        rewrite_author e (invalid_authors st) (get_author c) [] =
          (invalid_authors st', get_author c @ ''/'') \<and>
        map_of (invalid_authors st') (get_author c) = Some {} \<and>
        author_info st' =
          populate (get_author c @ ''/'') ''documentation''
            (set (find_components e (title_or_empty c) (get_hash c))) (author_info st))"
proof -
  have e: "iter_order e {} = []"
    using assms(2) by (rule iterates_empty)
  have loc: "\<forall>invalid. (case map_of invalid (get_author c) of None \<Rightarrow> {} | Some s \<Rightarrow> s) = {} \<longrightarrow>
        rewrite_author e invalid (get_author c) [] =
          (AList.update (get_author c) {} invalid, get_author c @ ''/'')"
    by (simp add: rewrite_author_invalid [OF assms(1)] e)
  have "c \<in> set (filtered_commits (classify_commits commits))"
    using assms(3) by simp
  then obtain title where title: "get_title c = Some title"
      "category_of title \<in> {Documentation, Normal}"
    using filtered_has_title by blast
  then have te: "title_or_empty c = title" by (simp add: title_or_empty_def)
  have no: "findall (upper title) = []"
    using assms(4) te by (simp add: seen_references_snoc)
  with category_documentation_or_normal [OF title(2)] have docs: "is_docs title" by simp
  obtain st st' where run: "aggregate_from e init_state pre = Inr st"
    "process_commit e st c = Inr st'"
    "rewrite_author e (invalid_authors st) (get_author c) (findall (upper (title_or_empty c))) =
       (invalid_authors st',
        get_author c @ ''/'' @
          join ''/'' (iter_order e (seen_references (get_author c) (pre @ [c]))))"
    "map_of (invalid_authors st') (get_author c) =
       Some (seen_references (get_author c) (pre @ [c]))"
    using identity_in_run [OF assms(1,3)] by blast
  have ra: "rewrite_author e (invalid_authors st) (get_author c) [] =
      (invalid_authors st', get_author c @ ''/'')"
    using run(3) by (simp add: assms(4) e te no)
  have m: "map_of (invalid_authors st') (get_author c) = Some {}"
    using run(4) by (simp add: assms(4))
  have "author_info st' =
      populate (get_author c @ ''/'') ''documentation''
        (set (find_components e title (get_hash c))) (author_info st)"
    using process_commit_docs [OF title(1) docs no, of e st] run(2) ra by auto
  with loc run(1,2) no ra m te show ?thesis by auto
qed

theorem invalid_author_without_references_witness:
  "\<not> is_valid_author (ex_env sorted_list_of_set ex_tracker) ''bob'' \<and>
   iterates (iter_order (ex_env sorted_list_of_set ex_tracker)) \<and>
   filtered_commits (classify_commits ex_bob_docs) =
     [] @ ex_commit ''h3'' ''Update docs'' ''bob'' None # [] \<and>
   seen_references ''bob'' ([] @ [ex_commit ''h3'' ''Update docs'' ''bob'' None]) = {} \<and>
   rewrite_author (ex_env sorted_list_of_set ex_tracker) [] ''bob'' [] =
     ([(''bob'', {})], ''bob/'') \<and>
   (\<exists>final. aggregate (ex_env sorted_list_of_set ex_tracker)
        (filtered_commits (classify_commits ex_bob_docs)) = Inr final \<and>
      report (ex_env sorted_list_of_set ex_tracker) (author_info final) =
        Inr [''bob/ -- Documentation in core''])"
proof -
  let ?e = "ex_env sorted_list_of_set ex_tracker"
  let ?c = "ex_commit ''h3'' ''Update docs'' ''bob'' None"
  have a: "get_author ?c = ''bob''" by (simp add: ex_commit_def)
  have v: "\<not> is_valid_author ?e (get_author ?c)" by code_simp
  have v': "\<not> is_valid_author ?e ''bob''" by code_simp
  have i: "iterates (iter_order ?e)" by (simp add: ex_env_def iterates_sorted)
  have f: "filtered_commits (classify_commits ex_bob_docs) = [] @ ?c # []" by code_simp
  have s: "seen_references (get_author ?c) ([] @ [?c]) = {}" by code_simp
  have s': "seen_references ''bob'' ([] @ [?c]) = {}" by code_simp
  note w = invalid_author_without_references [OF v i f s]
  from w have "\<forall>invalid. (case map_of invalid (get_author ?c) of None \<Rightarrow> {} | Some s \<Rightarrow> s) = {} \<longrightarrow>
        rewrite_author ?e invalid (get_author ?c) [] =
          (AList.update (get_author ?c) {} invalid, get_author ?c @ ''/'')"
    by (rule conjunct1)
  then have "(case map_of [] (get_author ?c) of None \<Rightarrow> {} | Some s \<Rightarrow> s) = ({} :: string set) \<longrightarrow>
        rewrite_author ?e [] (get_author ?c) [] =
          (AList.update (get_author ?c) {} [], get_author ?c @ ''/'')"
    by (rule spec)
  then have r: "rewrite_author ?e [] ''bob'' [] = ([(''bob'', {})], ''bob/'')"
    unfolding a by simp
  have "case aggregate ?e (filtered_commits (classify_commits ex_bob_docs)) of
      Inl err \<Rightarrow> False
    | Inr final \<Rightarrow> report ?e (author_info final) = Inr [''bob/ -- Documentation in core'']"
    by code_simp
  then have x: "\<exists>final. aggregate ?e (filtered_commits (classify_commits ex_bob_docs)) = Inr final \<and>
      report ?e (author_info final) = Inr [''bob/ -- Documentation in core'']"
    by (cases "aggregate ?e (filtered_commits (classify_commits ex_bob_docs))") simp_all
  show ?thesis
    by (intro conjI v' i f s' r x)
qed

subsection \<open>The line of an author with one component\<close>

lemma distinct_set_single: "distinct xs \<Longrightarrow> set xs = {x} \<Longrightarrow> xs = [x]"
proof -
  assume d: "distinct xs" and s: "set xs = {x}"
  then have "length xs = 1" using distinct_card [of xs] by simp
  then obtain y where "xs = [y]" by (cases xs) auto
  with s show ?thesis by simp
qed

lemma distinct_set_pair:
  assumes "distinct xs" and "set xs = {a, b}" and "a \<noteq> b"
  shows "xs = [a, b] \<or> xs = [b, a]"
proof -
  have "length xs = 2" using distinct_card [OF assms(1)] assms(2,3) by simp
  then obtain x y where xy: "xs = [x, y]"
    by (cases xs; cases "tl xs") auto
  with assms(2) have "{x, y} = {a, b}" by simp
  then have "(x = a \<and> y = b) \<or> (x = b \<and> y = a)" by (simp add: doubleton_eq_iff)
  with xy show ?thesis by auto
qed

lemma iterates_descending: "iterates ex_descending"
  by (simp add: iterates_def ex_descending_def)

lemma contribution_single_component:
  assumes "iterates (iter_order e)" and "\<Union> (set (map snd types)) = {component}"
  shows "contribution_of e types =
     Inr (nice_join (iter_order e (set (map fst types))) @ '' in '' @ component)"
proof -
  have "finite {component}" by simp
  with assms(1) have "set (iter_order e {component}) = {component}" "distinct (iter_order e {component})"
    unfolding iterates_def by blast+
  then have "iter_order e {component} = [component]" by (simp add: distinct_set_single)
  with assms(2) show ?thesis by (simp add: contribution_of_def)
qed

text \<open>
  Claim C4, as the code has it. When the components of all issue types of an author are one
  component, the contribution is the issue types joined by \<^verbatim>\<open>nice_join\<close>, then " in ", then
  that component, and the line is the author, " -- ", and the contribution with its first
  character in upper case and the rest as it is. The issue types are joined in the order in
  which the set of issue types is iterated, each once: one item stands alone, two are joined
  by " and ", three or more by commas with "and" before the last. For the issue types Bug and
  Improvement and the component core the contribution is "Bug and Improvement in core" or
  "Improvement and Bug in core", as the order falls.
\<close>

theorem single_component_line:
  assumes "iterates (iter_order e)" and "map_of info author = Some types"
    and "\<Union> (set (map snd types)) = {component}"
  shows "contribution_of e types =
       Inr (nice_join (iter_order e (set (map fst types))) @ '' in '' @ component) \<and>
     set (iter_order e (set (map fst types))) = set (map fst types) \<and>
     distinct (iter_order e (set (map fst types))) \<and>
     (\<exists>c cs. nice_join (iter_order e (set (map fst types))) @ '' in '' @ component = c # cs \<and>
        report_line e info author = Inr (author @ '' -- '' @ upper_char c # cs)) \<and>
     nice_join [x] = x \<and> nice_join [x, y] = x @ '' and '' @ y \<and>
     (3 \<le> length xs \<longrightarrow> nice_join xs = join '', '' (butlast xs) @ '', and '' @ last xs) \<and>
     (set (map fst types) = {''Bug'', ''Improvement''} \<and> component = ''core'' \<longrightarrow>
        contribution_of e types = Inr ''Bug and Improvement in core'' \<or>
        contribution_of e types = Inr ''Improvement and Bug in core'')"
proof -
  define tys where "tys = iter_order e (set (map fst types))"
  define s where "s = nice_join tys @ '' in '' @ component"
  have c: "contribution_of e types = Inr s"
    unfolding s_def tys_def using assms(1,3) by (rule contribution_single_component)
  have "finite (set (map fst types))" by (rule List.finite_set)
  with assms(1) have it: "set tys = set (map fst types)" "distinct tys"
    unfolding iterates_def tys_def by blast+
  have "s \<noteq> []" by (simp add: s_def)
  then obtain k ks where k: "s = k # ks" by (cases s) auto
  have "report_line e info author = Inr (author @ '' -- '' @ upper_char k # ks)"
    by (simp add: report_line_def capitalize_first_def assms(2) c k)
  with k have line: "\<exists>c cs. s = c # cs \<and>
        report_line e info author = Inr (author @ '' -- '' @ upper_char c # cs)"
    by blast
  have one: "nice_join [x] = x" by simp
  have two: "nice_join [x, y] = x @ '' and '' @ y" by simp
  have three: "3 \<le> length xs \<longrightarrow> nice_join xs = join '', '' (butlast xs) @ '', and '' @ last xs"
  proof
    assume "3 \<le> length xs"
    then obtain a b d ds where "xs = a # b # d # ds"
      by (cases xs; cases "tl xs"; cases "tl (tl xs)") auto
    then show "nice_join xs = join '', '' (butlast xs) @ '', and '' @ last xs"
      by (simp only: nice_join.simps)
  qed
  have part: "set (map fst types) = {''Bug'', ''Improvement''} \<and> component = ''core'' \<longrightarrow>
        contribution_of e types = Inr ''Bug and Improvement in core'' \<or>
        contribution_of e types = Inr ''Improvement and Bug in core''"
  proof
    assume h: "set (map fst types) = {''Bug'', ''Improvement''} \<and> component = ''core''"
    then have st: "set tys = {''Bug'', ''Improvement''}" and co: "component = ''core''"
      using it(1) by simp_all
    have ne: "''Bug'' \<noteq> ''Improvement''" by simp
    from it(2) st ne have "tys = [''Bug'', ''Improvement''] \<or> tys = [''Improvement'', ''Bug'']"
      by (rule distinct_set_pair)
    then show "contribution_of e types = Inr ''Bug and Improvement in core'' \<or>
        contribution_of e types = Inr ''Improvement and Bug in core''"
    proof
      assume "tys = [''Bug'', ''Improvement'']"
      then have "s = ''Bug and Improvement in core''" by (simp add: s_def co)
      with c show ?thesis by simp
    next
      assume "tys = [''Improvement'', ''Bug'']"
      then have "s = ''Improvement and Bug in core''" by (simp add: s_def co)
      with c show ?thesis by simp
    qed
  qed
  show ?thesis
    using c it line one two three part unfolding s_def tys_def by (intro conjI)
qed

theorem single_component_line_witness:
  "iterates (iter_order (ex_env sorted_list_of_set ex_tracker)) \<and>
   map_of ex_info ''Ann <a@x.org>'' = Some [(''Bug'', {''core''}), (''Improvement'', {''core''})] \<and>
   \<Union> (set (map snd [(''Bug'', {''core''}), (''Improvement'', {''core''})])) = {''core''} \<and>
   contribution_of (ex_env sorted_list_of_set ex_tracker)
     [(''Bug'', {''core''}), (''Improvement'', {''core''})] =
     Inr ''Bug and Improvement in core'' \<and>
   report_line (ex_env sorted_list_of_set ex_tracker) ex_info ''Ann <a@x.org>'' =
     Inr ''Ann <a@x.org> -- Bug and Improvement in core'' \<and>
   nice_join [''Bug'', ''Improvement'', ''Test''] = ''Bug, Improvement, and Test''"
proof -
  let ?e = "ex_env sorted_list_of_set ex_tracker"
  let ?types = "[(''Bug'', {''core''}), (''Improvement'', {''core''})]"
  have i: "iterates (iter_order ?e)" by (simp add: ex_env_def iterates_sorted)
  have m: "map_of ex_info ''Ann <a@x.org>'' = Some ?types" by (simp add: ex_info_def)
  have u: "\<Union> (set (map snd ?types)) = {''core''}" by simp
  note w = single_component_line [OF i m u, of "''Bug''" "''Improvement''"
      "[''Bug'', ''Improvement'', ''Test'']"]
  have o: "nice_join (iter_order ?e (set (map fst ?types))) @ '' in '' @ ''core'' =
      ''Bug and Improvement in core''"
    by code_simp
  from w have c: "contribution_of ?e ?types = Inr ''Bug and Improvement in core''"
    unfolding o by (rule conjunct1)
  from w have "3 \<le> length [''Bug'', ''Improvement'', ''Test''] \<longrightarrow>
      nice_join [''Bug'', ''Improvement'', ''Test''] =
        join '', '' (butlast [''Bug'', ''Improvement'', ''Test'']) @ '', and '' @
          last [''Bug'', ''Improvement'', ''Test'']"
    by (elim conjE)
  then have n: "nice_join [''Bug'', ''Improvement'', ''Test''] = ''Bug, Improvement, and Test''"
    by simp
  have l: "report_line ?e ex_info ''Ann <a@x.org>'' =
     Inr ''Ann <a@x.org> -- Bug and Improvement in core''"
    by code_simp
  show ?thesis
    by (intro conjI i m u c l n)
qed

theorem single_component_line_counterexample:
  "iterates (iter_order (ex_env ex_descending ex_tracker)) \<and>
   \<Union> (set (map snd [(''Bug'', {''core''}), (''Improvement'', {''core''})])) = {''core''} \<and>
   report_line (ex_env ex_descending ex_tracker) ex_info ''Ann <a@x.org>'' =
     Inr ''Ann <a@x.org> -- Improvement and Bug in core'' \<and>
   report_line (ex_env ex_descending ex_tracker) ex_info ''Ann <a@x.org>'' \<noteq>
     Inr ''Ann <a@x.org> -- Bug and Improvement in core''"
proof -
  have "iterates (iter_order (ex_env ex_descending ex_tracker))"
    by (simp add: ex_env_def iterates_descending)
  moreover have "\<Union> (set (map snd [(''Bug'', {''core''}), (''Improvement'', {''core''})])) = {''core''}"
    by simp
  moreover have "report_line (ex_env ex_descending ex_tracker) ex_info ''Ann <a@x.org>'' =
     Inr ''Ann <a@x.org> -- Improvement and Bug in core''"
    by code_simp
  moreover have "report_line (ex_env ex_descending ex_tracker) ex_info ''Ann <a@x.org>'' \<noteq>
     Inr ''Ann <a@x.org> -- Bug and Improvement in core''"
    by code_simp
  ultimately show ?thesis by (intro conjI)
qed

end
